theory Spec2Isabelle
  imports Main "HOL-Library.Word" "HOL-Library.Log_Nat"
begin

section \<open>Data model\<close>

text \<open>
  The program works on two kinds of objects of the canvas library: decoded images
  (read-only, with a natural width and height) and canvases (mutable bitmaps).
  A bitmap is a row-major byte array, four bytes per pixel (red, green, blue, alpha).
  A canvas keeps its pixels premultiplied: each colour byte is stored already scaled by
  the alpha of its pixel, and under alpha 0 all three are 0. The bytes that the program
  reads and writes with \<open>getImageData\<close> and \<open>putImageData\<close> are not premultiplied.
  Canvases are objects that the code passes by reference, so they live in a store;
  a reference is the position of the canvas in the store.
\<close>

type_synonym byte = "8 word"

record image =
  img_width :: nat
  img_height :: nat
  img_data :: "byte list"

record canvas =
  width :: nat
  height :: nat
  data :: "byte list"

type_synonym ref = nat
type_synonym store = "canvas list"

text \<open>The invariant of the data model: a bitmap holds \<open>width * height * 4\<close> bytes.\<close>

definition wf_canvas :: "canvas \<Rightarrow> bool" where
  "wf_canvas c = (length (data c) = width c * height c * 4)"

section \<open>The canvas library, as the program uses it\<close>

text \<open>
  \<open>createCanvas w h\<close> allocates a new canvas, transparent black, and returns a reference
  to it; no existing canvas is touched.
\<close>

definition createCanvas :: "nat \<Rightarrow> nat \<Rightarrow> store \<Rightarrow> ref \<times> store" where
  "createCanvas w h s =
     (length s, s @ [\<lparr>width = w, height = h, data = replicate (w * h * 4) 0\<rparr>])"

text \<open>
  \<open>ctx.drawImage(img1, 0, 0)\<close>: the program draws a canvas at the origin of a canvas that
  it has just created with the same width and height, so the destination takes the pixels
  of the source.
\<close>

definition drawImage :: "store \<Rightarrow> ref \<Rightarrow> ref \<Rightarrow> store" where
  "drawImage s dst src = s[dst := (s ! dst)\<lparr>data := data (s ! src)\<rparr>]"

text \<open>
  The two conversions between the bytes of an image data object and the premultiplied
  bytes of a canvas. Under alpha 255 a colour byte is kept as it is, and under alpha 0 it
  is 0; that much holds for every canvas library. Under an alpha between 1 and 254 the
  result depends on how the library rounds, so these two functions are a parameter.
\<close>

record canvas_lib =
  lib_premul :: "byte \<Rightarrow> byte \<Rightarrow> byte"
  lib_unpremul :: "byte \<Rightarrow> byte \<Rightarrow> byte"

definition premultiply :: "canvas_lib \<Rightarrow> byte \<Rightarrow> byte \<Rightarrow> byte" where
  "premultiply L c a = (if a = 0 then 0 else if a = 255 then c else lib_premul L c a)"

definition unpremultiply :: "canvas_lib \<Rightarrow> byte \<Rightarrow> byte \<Rightarrow> byte" where
  "unpremultiply L c a = (if a = 0 then 0 else if a = 255 then c else lib_unpremul L c a)"

text \<open>The alpha byte of the pixel that byte \<open>p\<close> of a bitmap belongs to.\<close>

definition alpha_at :: "byte list \<Rightarrow> nat \<Rightarrow> byte" where
  "alpha_at d p = (let q = p - p mod 4 + 3 in if q < length d then d ! q else 0)"

definition to_rgba :: "canvas_lib \<Rightarrow> byte list \<Rightarrow> byte list" where
  "to_rgba L d =
     map (\<lambda>p. if p mod 4 = 3 then d ! p else unpremultiply L (d ! p) (alpha_at d p))
       [0..<length d]"

definition to_premul :: "canvas_lib \<Rightarrow> byte list \<Rightarrow> byte list" where
  "to_premul L d =
     map (\<lambda>p. if p mod 4 = 3 then d ! p else premultiply L (d ! p) (alpha_at d p))
       [0..<length d]"

text \<open>
  A JavaScript \<open>Error\<close> is its message; \<open>IndexSizeError\<close> is the exception that
  \<open>getImageData\<close> throws when the width or the height of the rectangle is 0.
\<close>

datatype error = Error string | IndexSizeError

text \<open>
  \<open>getImageData(0, 0, c.width, c.height)\<close> throws when the canvas has width or height 0,
  and otherwise returns a copy of the whole bitmap, not premultiplied (a value, not a
  reference into the canvas). \<open>putImageData(d, 0, 0)\<close> writes a whole bitmap back,
  premultiplied.
\<close>

definition getImageData :: "canvas_lib \<Rightarrow> store \<Rightarrow> ref \<Rightarrow> error + byte list" where
  "getImageData L s r =
     (if width (s ! r) = 0 \<or> height (s ! r) = 0 then Inl IndexSizeError
      else Inr (to_rgba L (data (s ! r))))"

definition putImageData :: "canvas_lib \<Rightarrow> store \<Rightarrow> ref \<Rightarrow> byte list \<Rightarrow> store" where
  "putImageData L s r d = s[r := (s ! r)\<lparr>data := to_premul L d\<rparr>]"

text \<open>
  Element access of a \<open>Uint8ClampedArray\<close>: a read outside the array gives \<open>undefined\<close>
  (\<open>None\<close>); a write outside the array is ignored; storing \<open>undefined\<close> stores 0.
\<close>

definition rd :: "byte list \<Rightarrow> nat \<Rightarrow> byte option" where
  "rd d j = (if j < length d then Some (d ! j) else None)"

definition wr :: "byte list \<Rightarrow> nat \<Rightarrow> byte option \<Rightarrow> byte list" where
  "wr d i v = (if i < length d then d[i := (case v of None \<Rightarrow> 0 | Some b \<Rightarrow> b)] else d)"

text \<open>What an element holds after \<open>d[i] = v\<close>, and the position of channel \<open>k\<close> of pixel
  \<open>(x, y)\<close> in a row-major bitmap of width \<open>w\<close> (\<open>k\<close> is 3 for alpha).\<close>

definition to_u8 :: "byte option \<Rightarrow> byte" where
  "to_u8 v = (case v of None \<Rightarrow> 0 | Some b \<Rightarrow> b)"

definition idx :: "nat \<Rightarrow> nat \<Rightarrow> nat \<Rightarrow> nat \<Rightarrow> nat" where
  "idx w x y k = (y * w + x) * 4 + k"

text \<open>Channel \<open>k\<close> of pixel \<open>(x, y)\<close> of a canvas, as \<open>getImageData\<close> shows it.\<close>

definition rgba :: "canvas_lib \<Rightarrow> canvas \<Rightarrow> nat \<Rightarrow> nat \<Rightarrow> nat \<Rightarrow> byte" where
  "rgba L c x y k = to_rgba L (data c) ! idx (width c) x y k"

section \<open>combineImages\<close>

text \<open>
  The body of the inner loop: \<open>i\<close> is computed with the width of the first canvas,
  \<open>j\<close> with the width of the second; three channels are copied.
\<close>

definition copy_rgb :: "nat \<Rightarrow> nat \<Rightarrow> byte list \<Rightarrow> nat \<Rightarrow> nat \<Rightarrow> byte list \<Rightarrow> byte list" where
  "copy_rgb w1 w2 d2 x y d1 =
     (let i = (y * w1 + x) * 4;
          j = (y * w2 + x) * 4;
          d = wr d1 i (rd d2 j);
          d = wr d (i + 1) (rd d2 (j + 1));
          d = wr d (i + 2) (rd d2 (j + 2))
      in d)"

text \<open>\<open>for (let y = 0; y < img1.height; y++)\<close>\<close>

function rows_loop ::
  "nat \<Rightarrow> nat \<Rightarrow> nat \<Rightarrow> byte list \<Rightarrow> nat \<Rightarrow> nat \<Rightarrow> byte list \<Rightarrow> byte list" where
  "rows_loop w1 h1 w2 d2 x y d1 =
     (if y < h1 then rows_loop w1 h1 w2 d2 x (y + 1) (copy_rgb w1 w2 d2 x y d1) else d1)"
  by pat_completeness auto
termination
  by (relation "measure (\<lambda>(w1, h1, w2, d2, x, y, d1). h1 - y)") auto

text \<open>\<open>for (let x = 0; x < img1.width; x += 2)\<close>\<close>

function cols_loop ::
  "nat \<Rightarrow> nat \<Rightarrow> nat \<Rightarrow> byte list \<Rightarrow> nat \<Rightarrow> byte list \<Rightarrow> byte list" where
  "cols_loop w1 h1 w2 d2 x d1 =
     (if x < w1 then cols_loop w1 h1 w2 d2 (x + 2) (rows_loop w1 h1 w2 d2 x 0 d1) else d1)"
  by pat_completeness auto
termination
  by (relation "measure (\<lambda>(w1, h1, w2, d2, x, d1). w1 - x)") auto

declare rows_loop.simps [simp del]
declare cols_loop.simps [simp del]

text \<open>
  An exception of \<open>getImageData\<close> ends the call; the canvas created before it stays
  allocated, so the store is part of the result in both cases.
\<close>

definition combineImages :: "canvas_lib \<Rightarrow> store \<Rightarrow> ref \<Rightarrow> ref \<Rightarrow> (error + ref) \<times> store" where
  "combineImages L s img1 img2 =
     (let (canvas, s1) = createCanvas (width (s ! img1)) (height (s ! img1)) s;
          s2 = drawImage s1 canvas img1
      in case getImageData L s2 canvas of
           Inl e \<Rightarrow> (Inl e, s2)
         | Inr imgData1 \<Rightarrow>
        (case getImageData L s2 img2 of
           Inl e \<Rightarrow> (Inl e, s2)
         | Inr imgData2 \<Rightarrow>
             let imgData1 = cols_loop (width (s2 ! img1)) (height (s2 ! img1))
                              (width (s2 ! img2)) imgData2 0 imgData1;
                 s3 = putImageData L s2 canvas imgData1
             in (Inr canvas, s3)))"

section \<open>Loading and resizing (imageCombiner.ts)\<close>

text \<open>
  The decoder \<open>loadImage\<close> of the canvas library is a parameter of the model: it maps a path
  to the decoded image, or to the message of the error it rejects with. The file is taken
  not to change between two loads.
\<close>

type_synonym loader = "string \<Rightarrow> string + image"

definition loadImageWithPath :: "loader \<Rightarrow> string \<Rightarrow> error + image" where
  "loadImageWithPath loadImage filePath =
     (case loadImage filePath of
        Inl msg \<Rightarrow> Inl (Error (''Failed to load image from '' @ filePath @ '': '' @ msg))
      | Inr img \<Rightarrow> Inr img)"

text \<open>
  \<open>ctx.drawImage(img, 0, 0, w, h)\<close> on a canvas created with width \<open>w\<close> and height \<open>h\<close>
  covers the whole canvas with the rescaled image. How the library resamples is a parameter:
  \<open>resample img w h p\<close> is byte \<open>p\<close> of the image rescaled to \<open>w\<close> by \<open>h\<close>, as the canvas
  stores it. The bitmap of the canvas keeps its size.
\<close>

type_synonym resampler = "image \<Rightarrow> nat \<Rightarrow> nat \<Rightarrow> nat \<Rightarrow> byte"

definition drawImageScaled :: "resampler \<Rightarrow> store \<Rightarrow> ref \<Rightarrow> image \<Rightarrow> nat \<Rightarrow> nat \<Rightarrow> store" where
  "drawImageScaled resample s dst img w h =
     s[dst := (s ! dst)\<lparr>data := map (resample img w h) [0..<length (data (s ! dst))]\<rparr>]"

definition loadAndResizeImage ::
  "loader \<Rightarrow> resampler \<Rightarrow> store \<Rightarrow> string \<Rightarrow> nat \<Rightarrow> nat \<Rightarrow> error + (ref \<times> store)" where
  "loadAndResizeImage loadImage resample s filePath targetWidth targetHeight =
     (case loadImageWithPath loadImage filePath of
        Inl e \<Rightarrow> Inl e
      | Inr img \<Rightarrow>
          let (canvas, s1) = createCanvas targetWidth targetHeight s;
              s2 = drawImageScaled resample s1 canvas img targetWidth targetHeight
          in Inr (canvas, s2))"

text \<open>The fields of an \<open>Args\<close> object, once constructed.\<close>

record Args =
  image1Path :: string
  image2Path :: string
  outputPath :: string

text \<open>\<open>saveImage\<close> streams the canvas as a PNG into a file: the effect is the file written,
  a path with the bitmap it holds.\<close>

definition saveImage :: "string \<Rightarrow> store \<Rightarrow> ref \<Rightarrow> string \<times> canvas" where
  "saveImage filePath s canvas = (filePath, s ! canvas)"

definition processImages ::
  "canvas_lib \<Rightarrow> loader \<Rightarrow> resampler \<Rightarrow> store \<Rightarrow> Args \<Rightarrow>
     error + (store \<times> (string \<times> canvas))" where
  "processImages L loadImage resample s args =
     (case loadImageWithPath loadImage (image1Path args) of
        Inl e \<Rightarrow> Inl e
      | Inr img1 \<Rightarrow>
     (case loadImageWithPath loadImage (image2Path args) of
        Inl e \<Rightarrow> Inl e
      | Inr img2 \<Rightarrow>
          let commonWidth = min (img_width img1) (img_width img2);
              commonHeight = min (img_height img1) (img_height img2)
          in
     (case loadAndResizeImage loadImage resample s (image1Path args) commonWidth commonHeight of
        Inl e \<Rightarrow> Inl e
      | Inr (img1Resized, s1) \<Rightarrow>
     (case loadAndResizeImage loadImage resample s1 (image2Path args) commonWidth commonHeight of
        Inl e \<Rightarrow> Inl e
      | Inr (img2Resized, s2) \<Rightarrow>
     (case combineImages L s2 img1Resized img2Resized of
        (Inl e, s3) \<Rightarrow> Inl e
      | (Inr imgCombined, s3) \<Rightarrow> Inr (s3, saveImage (outputPath args) s3 imgCombined))))))"

section \<open>Loading and resizing with the aspect ratio kept (imageCombiner.js)\<close>

text \<open>
  JavaScript numbers are IEEE 754 binary64 values, and \<open>/\<close> and \<open>*\<close> round their exact
  result to the nearest such value, ties to the even significand. A finite number is
  modelled by the rational it denotes. \<open>expo x\<close> is the binary exponent of a positive \<open>x\<close>
  (\<open>2 ^ expo x \<le> x < 2 ^ (expo x + 1)\<close>) and \<open>fl x\<close> keeps 53 significant bits of \<open>x\<close>. The
  exponent range of binary64 (-1022 to 1023) is not modelled: the numbers of this program
  are quotients and products of image sizes, far inside it. A width or height is a natural
  number; it is a binary64 number itself as long as it is below \<open>2 ^ 53\<close>.
\<close>

definition round_half_even :: "rat \<Rightarrow> int" where
  "round_half_even x =
     (let n = \<lfloor>x\<rfloor>; r = x - of_int n
      in if r < 1 / 2 then n else if 1 / 2 < r then n + 1 else if even n then n else n + 1)"

definition expo :: "rat \<Rightarrow> int" where
  "expo x = (if 1 \<le> x then bitlen \<lfloor>x\<rfloor> - 1 else - bitlen (\<lceil>1 / x\<rceil> - 1))"

definition fl_pos :: "rat \<Rightarrow> rat" where
  "fl_pos x =
     (let e = expo x
      in of_int (round_half_even (x * 2 powi (52 - e))) * 2 powi (e - 52))"

definition fl :: "rat \<Rightarrow> rat" where
  "fl x = (if x = 0 then 0 else if x < 0 then - fl_pos (- x) else fl_pos x)"

text \<open>\<open>Math.round\<close>: the nearest integer, a tie going up.\<close>

definition Math_round :: "rat \<Rightarrow> int" where
  "Math_round x = \<lfloor>x + 1 / 2\<rfloor>"

text \<open>
  Lines 23 to 32 of \<open>loadAndResizeImage\<close> in imageCombiner.js: the size of the canvas, from
  the size of the image and the target size. A decoded image has a positive width and
  height; for a height of 0 the quotient is \<open>Infinity\<close> or \<open>NaN\<close> in JavaScript, which a
  rational does not represent, so nothing is stated about that case.
\<close>

definition newSize :: "nat \<Rightarrow> nat \<Rightarrow> nat \<Rightarrow> nat \<Rightarrow> nat \<times> nat" where
  "newSize imgWidth imgHeight targetWidth targetHeight =
     (let aspectRatio = fl (of_nat imgWidth / of_nat imgHeight);
          newWidth = targetWidth;
          newHeight = targetHeight
      in if 1 < aspectRatio
         then (newWidth, nat (Math_round (fl (of_nat targetWidth / aspectRatio))))
         else (nat (Math_round (fl (of_nat targetHeight * aspectRatio))), newHeight))"

text \<open>This variant calls \<open>loadImage\<close> itself: the error of the decoder is not wrapped.\<close>

definition loadAndResizeImage_js ::
  "loader \<Rightarrow> resampler \<Rightarrow> store \<Rightarrow> string \<Rightarrow> nat \<Rightarrow> nat \<Rightarrow> error + (ref \<times> store)" where
  "loadAndResizeImage_js loadImage resample s path targetWidth targetHeight =
     (case loadImage path of
        Inl msg \<Rightarrow> Inl (Error msg)
      | Inr img \<Rightarrow>
          let (newWidth, newHeight) =
                newSize (img_width img) (img_height img) targetWidth targetHeight;
              (canvas, s1) = createCanvas newWidth newHeight s;
              s2 = drawImageScaled resample s1 canvas img newWidth newHeight
          in Inr (canvas, s2))"

text \<open>The width and height of the canvas that a call returned, if it returned one.\<close>

definition canvas_size :: "error + (ref \<times> store) \<Rightarrow> (nat \<times> nat) option" where
  "canvas_size res =
     (case res of Inl e \<Rightarrow> None | Inr (r, s) \<Rightarrow> Some (width (s ! r), height (s ! r)))"

section \<open>Example inputs\<close>

text \<open>Opaque canvases, a transparent one, one with a single translucent pixel and one of
  width 0.\<close>

definition canvasA :: canvas where
  "canvasA = \<lparr>width = 2, height = 2,
     data = [1, 2, 3, 255, 5, 6, 7, 255, 9, 10, 11, 255, 13, 14, 15, 255]\<rparr>"

definition canvasB :: canvas where
  "canvasB = \<lparr>width = 2, height = 2,
     data = [101, 102, 103, 255, 105, 106, 107, 255, 109, 110, 111, 255, 113, 114, 115, 255]\<rparr>"

definition canvasWide :: canvas where
  "canvasWide = \<lparr>width = 3, height = 2,
     data = [1, 2, 3, 255, 5, 6, 7, 255, 9, 10, 11, 255,
             13, 14, 15, 255, 17, 18, 19, 255, 21, 22, 23, 255]\<rparr>"

definition red2 :: canvas where
  "red2 = \<lparr>width = 2, height = 2,
     data = [255, 0, 0, 255, 255, 0, 0, 255, 255, 0, 0, 255, 255, 0, 0, 255]\<rparr>"

definition blue2 :: canvas where
  "blue2 = \<lparr>width = 2, height = 2,
     data = [0, 0, 255, 255, 0, 0, 255, 255, 0, 0, 255, 255, 0, 0, 255, 255]\<rparr>"


definition faint1 :: canvas where
  "faint1 = \<lparr>width = 1, height = 1, data = [1, 1, 1, 254]\<rparr>"

definition narrow0 :: canvas where
  "narrow0 = \<lparr>width = 0, height = 300, data = []\<rparr>"

text \<open>
  Two instances of the conversions under a translucent alpha: one that truncates the
  quotient, as node-canvas does (it computes the quotient in single precision; at the values
  used below the result is the same), and one that rounds it to the nearest byte.
\<close>

definition truncating :: canvas_lib where
  "truncating =
     \<lparr>lib_premul = (\<lambda>c a. of_nat (unat c * unat a div 255)),
      lib_unpremul = (\<lambda>c a. of_nat (unat c * 255 div unat a))\<rparr>"

definition rounding :: canvas_lib where
  "rounding =
     \<lparr>lib_premul = (\<lambda>c a. of_nat ((2 * unat c * unat a + 255) div 510)),
      lib_unpremul = (\<lambda>c a. of_nat (min 255 ((2 * unat c * 255 + unat a) div (2 * unat a))))\<rparr>"

text \<open>A directory with five images, of which only the sizes matter, and a sampler that
  takes the nearest pixel.\<close>

definition blank_image :: "nat \<Rightarrow> nat \<Rightarrow> image" where
  "blank_image w h = \<lparr>img_width = w, img_height = h, img_data = replicate (w * h * 4) 255\<rparr>"

definition files :: loader where
  "files p =
     (if p = ''wide.png'' then Inr (blank_image 200 100)
      else if p = ''tall.png'' then Inr (blank_image 41 200)
      else if p = ''square.png'' then Inr (blank_image 50 50)
      else if p = ''a.png'' then Inr (blank_image 3 2)
      else if p = ''b.png'' then Inr (blank_image 2 4)
      else Inl ''ENOENT'')"

definition nearest :: resampler where
  "nearest img w h p =
     (let x = (p div 4) mod w; y = (p div 4) div w;
          sx = x * img_width img div w; sy = y * img_height img div h
      in to_u8 (rd (img_data img) ((sy * img_width img + sx) * 4 + p mod 4)))"

section \<open>Properties of the loops\<close>

lemma wr_rd_same: "wr d i (rd d i) = d"
  by (simp add: wr_def rd_def)

lemma length_wr: "length (wr d i v) = length d"
  by (simp add: wr_def)

lemma length_copy_rgb: "length (copy_rgb w1 w2 d2 x y d1) = length d1"
  by (simp add: copy_rgb_def Let_def length_wr)

lemma length_rows_loop: "length (rows_loop w1 h1 w2 d2 x y d1) = length d1"
proof (induction w1 h1 w2 d2 x y d1 rule: rows_loop.induct)
  case (1 w1 h1 w2 d2 x y d1)
  then show ?case
    by (subst rows_loop.simps) (simp add: length_copy_rgb)
qed

lemma length_cols_loop: "length (cols_loop w1 h1 w2 d2 x d1) = length d1"
proof (induction w1 h1 w2 d2 x d1 rule: cols_loop.induct)
  case (1 w1 h1 w2 d2 x d1)
  then show ?case
    by (subst cols_loop.simps) (simp add: length_rows_loop)
qed

lemma copy_rgb_self: "copy_rgb w w d x y d = d"
  by (simp add: copy_rgb_def Let_def wr_rd_same)

lemma rows_loop_self: "rows_loop w h w d x y d = d"
proof (induction "h - y" arbitrary: y)
  case 0
  then show ?case by (subst rows_loop.simps) simp
next
  case (Suc n)
  then have "rows_loop w h w d x (y + 1) d = d" by simp
  then show ?case by (subst rows_loop.simps) (simp add: copy_rgb_self)
qed

lemma cols_loop_self: "cols_loop w h w d x d = d"
proof (induction "w - x" arbitrary: x rule: less_induct)
  case less
  show ?case
  proof (cases "x < w")
    case True
    then have "w - (x + 2) < w - x" by simp
    then have "cols_loop w h w d (x + 2) d = d" by (rule less)
    with True show ?thesis by (subst cols_loop.simps) (simp add: rows_loop_self)
  next
    case False
    then show ?thesis by (subst cols_loop.simps) simp
  qed
qed

lemma idx_inj:
  assumes "x < w" "x' < w" "k < 4" "k' < 4"
  shows "idx w x y k = idx w x' y' k' \<longleftrightarrow> x = x' \<and> y = y' \<and> k = k'"
proof
  assume e: "idx w x y k = idx w x' y' k'"
  define a where "a = y * w + x"
  define b where "b = y' * w + x'"
  from e have "a * 4 + k = b * 4 + k'" by (simp add: idx_def a_def b_def)
  with assms have k: "k = k'" and ab: "a = b" by arith+
  from ab have p: "y * w + x = y' * w + x'" by (simp add: a_def b_def)
  have "(y * w + x) mod w = x" "(y' * w + x') mod w = x'" using assms by simp_all
  with p have x: "x = x'" by simp
  have "(y * w + x) div w = y" "(y' * w + x') div w = y'" using assms by simp_all
  with p have "y = y'" by simp
  with k x show "x = x' \<and> y = y' \<and> k = k'" by simp
qed auto

lemma idx_less:
  assumes "x < w" "y < h" "k < 4"
  shows "idx w x y k < w * h * 4"
proof -
  have "y * w + x < (y + 1) * w" using assms by simp
  also have "\<dots> \<le> h * w" using assms by (intro mult_le_mono1) simp
  finally have "y * w + x + 1 \<le> w * h" by (simp add: mult.commute)
  then have "(y * w + x + 1) * 4 \<le> w * h * 4" by simp
  with assms show ?thesis by (simp add: idx_def)
qed

lemma nth_wr:
  "p < length d \<Longrightarrow> wr d i v ! p = (if p = i then to_u8 v else d ! p)"
  by (simp add: wr_def to_u8_def nth_list_update)

lemma nth_copy_rgb:
  assumes "length d1 = w1 * h1 * 4" "x < w1" "x' < w1" "y' < h1" "k < 4"
  shows "copy_rgb w1 w2 d2 x y d1 ! idx w1 x' y' k =
           (if x' = x \<and> y' = y \<and> k < 3 then to_u8 (rd d2 (idx w2 x y k)) else d1 ! idx w1 x' y' k)"
proof -
  define p where "p = idx w1 x' y' k"
  define r where "r = (\<lambda>c. rd d2 (idx w2 x y c))"
  define i where "i = (\<lambda>c. idx w1 x y c)"
  have l: "p < length d1" using assms by (simp add: idx_less p_def)
  have e: "\<And>c. c < 4 \<Longrightarrow> p = i c \<longleftrightarrow> x' = x \<and> y' = y \<and> k = c"
    using assms by (simp add: idx_inj p_def i_def)
  have "copy_rgb w1 w2 d2 x y d1 = wr (wr (wr d1 (i 0) (r 0)) (i 1) (r 1)) (i 2) (r 2)"
    by (simp add: copy_rgb_def idx_def Let_def i_def r_def)
  then have "copy_rgb w1 w2 d2 x y d1 ! p =
      (if p = i 2 then to_u8 (r 2) else if p = i 1 then to_u8 (r 1)
       else if p = i 0 then to_u8 (r 0) else d1 ! p)"
    using l by (simp add: nth_wr length_wr)
  also have "\<dots> = (if x' = x \<and> y' = y \<and> k < 3 then to_u8 (r k) else d1 ! p)"
  proof -
    have k3: "k < 3 \<longleftrightarrow> k = 0 \<or> k = 1 \<or> k = 2" by auto
    show ?thesis unfolding k3 by (auto simp add: e)
  qed
  finally show ?thesis by (simp add: p_def r_def)
qed

lemma nth_rows_loop:
  assumes "length d1 = w1 * h1 * 4" "x < w1" "x' < w1" "y' < h1" "k < 4"
  shows "rows_loop w1 h1 w2 d2 x y d1 ! idx w1 x' y' k =
           (if x' = x \<and> y \<le> y' \<and> k < 3 then to_u8 (rd d2 (idx w2 x y' k)) else d1 ! idx w1 x' y' k)"
  using assms
proof (induction w1 h1 w2 d2 x y d1 rule: rows_loop.induct)
  case (1 w1 h1 w2 d2 x y d1)
  show ?case
  proof (cases "y < h1")
    case True
    have len: "length (copy_rgb w1 w2 d2 x y d1) = w1 * h1 * 4"
      using "1.prems" by (simp add: length_copy_rgb)
    have "rows_loop w1 h1 w2 d2 x y d1 ! idx w1 x' y' k =
          rows_loop w1 h1 w2 d2 x (y + 1) (copy_rgb w1 w2 d2 x y d1) ! idx w1 x' y' k"
      using True by (subst rows_loop.simps) simp
    also have "\<dots> = (if x' = x \<and> y + 1 \<le> y' \<and> k < 3 then to_u8 (rd d2 (idx w2 x y' k))
                      else copy_rgb w1 w2 d2 x y d1 ! idx w1 x' y' k)"
      using "1.IH" [OF True len] "1.prems" by simp
    also have "\<dots> = (if x' = x \<and> y \<le> y' \<and> k < 3 then to_u8 (rd d2 (idx w2 x y' k))
                      else d1 ! idx w1 x' y' k)"
      using "1.prems" by (auto simp add: nth_copy_rgb)
    finally show ?thesis .
  next
    case False
    with "1.prems" show ?thesis by (subst rows_loop.simps) simp
  qed
qed

lemma nth_cols_loop:
  assumes "length d1 = w1 * h1 * 4" "x' < w1" "y' < h1" "k < 4"
  shows "cols_loop w1 h1 w2 d2 x d1 ! idx w1 x' y' k =
           (if x \<le> x' \<and> even (x' - x) \<and> k < 3 then to_u8 (rd d2 (idx w2 x' y' k))
            else d1 ! idx w1 x' y' k)"
  using assms
proof (induction w1 h1 w2 d2 x d1 rule: cols_loop.induct)
  case (1 w1 h1 w2 d2 x d1)
  show ?case
  proof (cases "x < w1")
    case True
    have len: "length (rows_loop w1 h1 w2 d2 x 0 d1) = w1 * h1 * 4"
      using "1.prems" by (simp add: length_rows_loop)
    have par: "(x + 2 \<le> x' \<and> even (x' - (x + 2)) \<and> k < 3) =
               (x' \<noteq> x \<and> x \<le> x' \<and> even (x' - x) \<and> k < 3)"
      by presburger
    have r: "rows_loop w1 h1 w2 d2 x 0 d1 ! idx w1 x' y' k =
               (if x' = x \<and> k < 3 then to_u8 (rd d2 (idx w2 x y' k)) else d1 ! idx w1 x' y' k)"
      using "1.prems" True by (simp add: nth_rows_loop)
    have "cols_loop w1 h1 w2 d2 x d1 ! idx w1 x' y' k =
          cols_loop w1 h1 w2 d2 (x + 2) (rows_loop w1 h1 w2 d2 x 0 d1) ! idx w1 x' y' k"
      using True by (subst cols_loop.simps) simp
    also have "\<dots> = (if x + 2 \<le> x' \<and> even (x' - (x + 2)) \<and> k < 3
                      then to_u8 (rd d2 (idx w2 x' y' k))
                      else rows_loop w1 h1 w2 d2 x 0 d1 ! idx w1 x' y' k)"
      using "1.IH" [OF True len] "1.prems" by simp
    also have "\<dots> = (if x \<le> x' \<and> even (x' - x) \<and> k < 3 then to_u8 (rd d2 (idx w2 x' y' k))
                      else d1 ! idx w1 x' y' k)"
      unfolding r par by auto
    finally show ?thesis .
  next
    case False
    with "1.prems" show ?thesis by (subst cols_loop.simps) simp
  qed
qed


lemma rd_out_of_range: "length d \<le> j \<Longrightarrow> to_u8 (rd d j) = 0"
  by (simp add: rd_def to_u8_def)

lemma idx_wrap: "0 < w \<Longrightarrow> idx w x y k = idx w (x mod w) (y + x div w) k"
proof -
  assume "0 < w"
  have "y * w + x = (y + x div w) * w + x mod w"
    by (simp add: add_mult_distrib)
  then show ?thesis by (simp only: idx_def)
qed

section \<open>Properties of the conversions\<close>

lemma length_to_rgba: "length (to_rgba L d) = length d"
  by (simp add: to_rgba_def)

lemma length_to_premul: "length (to_premul L d) = length d"
  by (simp add: to_premul_def)

lemma idx_mod4:
  assumes "k < 4"
  shows "idx w x y k mod 4 = k"
proof -
  define n where "n = y * w + x"
  have "idx w x y k = n * 4 + k" by (simp add: idx_def n_def)
  then show ?thesis using assms by simp
qed

lemma idx_alpha:
  assumes "k < 4"
  shows "idx w x y k - idx w x y k mod 4 + 3 = idx w x y 3"
proof -
  define n where "n = y * w + x"
  have "idx w x y k = n * 4 + k" "idx w x y 3 = n * 4 + 3" by (simp_all add: idx_def n_def)
  then show ?thesis using assms idx_mod4 [OF assms, of w x y] by simp
qed

lemma alpha_at_idx:
  assumes "length d = w * h * 4" "x < w" "y < h" "k < 4"
  shows "alpha_at d (idx w x y k) = d ! idx w x y 3"
proof -
  have "idx w x y 3 < length d" using assms by (simp add: idx_less)
  then show ?thesis
    unfolding alpha_at_def Let_def idx_alpha [OF assms(4)] by simp
qed

lemma nth_to_rgba:
  assumes "length d = w * h * 4" "x < w" "y < h" "k < 4"
  shows "to_rgba L d ! idx w x y k =
           (if k = 3 then d ! idx w x y 3
            else unpremultiply L (d ! idx w x y k) (d ! idx w x y 3))"
proof -
  have l: "idx w x y k < length d" using assms by (simp add: idx_less)
  have "to_rgba L d ! idx w x y k =
          (if idx w x y k mod 4 = 3 then d ! idx w x y k
           else unpremultiply L (d ! idx w x y k) (alpha_at d (idx w x y k)))"
    using l by (simp add: to_rgba_def)
  then show ?thesis using assms by (auto simp add: idx_mod4 alpha_at_idx)
qed

lemma nth_to_premul:
  assumes "length d = w * h * 4" "x < w" "y < h" "k < 4"
  shows "to_premul L d ! idx w x y k =
           (if k = 3 then d ! idx w x y 3
            else premultiply L (d ! idx w x y k) (d ! idx w x y 3))"
proof -
  have l: "idx w x y k < length d" using assms by (simp add: idx_less)
  have "to_premul L d ! idx w x y k =
          (if idx w x y k mod 4 = 3 then d ! idx w x y k
           else premultiply L (d ! idx w x y k) (alpha_at d (idx w x y k)))"
    using l by (simp add: to_premul_def)
  then show ?thesis using assms by (auto simp add: idx_mod4 alpha_at_idx)
qed

lemma opaque_round_trip: "unpremultiply L (premultiply L v 255) 255 = v"
  by (simp add: premultiply_def unpremultiply_def)


section \<open>What combineImages returns\<close>

lemma combineImages_throws:
  assumes "img1 < length s" "img2 < length s"
    and "width (s ! img1) = 0 \<or> height (s ! img1) = 0 \<or>
         width (s ! img2) = 0 \<or> height (s ! img2) = 0"
  shows "combineImages L s img1 img2 =
           (Inl IndexSizeError,
            s @ [\<lparr>width = width (s ! img1), height = height (s ! img1),
                  data = data (s ! img1)\<rparr>])"
  using assms
  by (auto simp add: combineImages_def createCanvas_def drawImage_def getImageData_def
      Let_def nth_append)

lemma combineImages_returns:
  assumes "img1 < length s" "img2 < length s"
    and "0 < width (s ! img1)" "0 < height (s ! img1)"
    and "0 < width (s ! img2)" "0 < height (s ! img2)"
  shows "combineImages L s img1 img2 =
           (Inr (length s),
            s @ [\<lparr>width = width (s ! img1), height = height (s ! img1),
                  data = to_premul L
                    (cols_loop (width (s ! img1)) (height (s ! img1)) (width (s ! img2))
                       (to_rgba L (data (s ! img2))) 0 (to_rgba L (data (s ! img1))))\<rparr>])"
  using assms
  by (simp add: combineImages_def createCanvas_def drawImage_def getImageData_def
      putImageData_def Let_def nth_append)

text \<open>
  Every channel of the canvas returned, read back with \<open>getImageData\<close>: alpha is that of
  the first canvas; a colour byte is the byte that the loop left in the image data,
  premultiplied by that alpha when it was written and divided by it again when read.
\<close>

lemma rgba_combined:
  assumes "length d1 = w1 * h1 * 4" "x < w1" "y < h1" "k < 4"
    and "c = \<lparr>width = w1, height = h1,
              data = to_premul L (cols_loop w1 h1 w2 v2 0 (to_rgba L d1))\<rparr>"
    and "a = d1 ! idx w1 x y 3"
    and "v = (if even x then to_u8 (rd v2 (idx w2 x y k)) else to_rgba L d1 ! idx w1 x y k)"
  shows "rgba L c x y k = (if k = 3 then a else unpremultiply L (premultiply L v a) a)"
proof -
  define D where "D = cols_loop w1 h1 w2 v2 0 (to_rgba L d1)"
  have lv: "length (to_rgba L d1) = w1 * h1 * 4" using assms(1) by (simp add: length_to_rgba)
  have lD: "length D = w1 * h1 * 4" using lv by (simp add: D_def length_cols_loop)
  have lP: "length (to_premul L D) = w1 * h1 * 4" using lD by (simp add: length_to_premul)
  have D3: "D ! idx w1 x y 3 = a"
    using nth_cols_loop [OF lv assms(2,3), of 3 w2 v2 0] nth_to_rgba [OF assms(1,2,3), of 3 L]
    by (simp add: D_def assms(6))
  have Dk: "k < 3 \<Longrightarrow> D ! idx w1 x y k = v"
    using nth_cols_loop [OF lv assms(2,3,4), of w2 v2 0] by (simp add: D_def assms(7))
  have P3: "to_premul L D ! idx w1 x y 3 = a"
    using nth_to_premul [OF lD assms(2,3), of 3 L] D3 by simp
  have Pk: "k < 3 \<Longrightarrow> to_premul L D ! idx w1 x y k = premultiply L v a"
    using nth_to_premul [OF lD assms(2,3,4), of L] D3 Dk by simp
  have "rgba L c x y k = to_rgba L (to_premul L D) ! idx w1 x y k"
    by (simp add: rgba_def assms(5) D_def)
  also have "\<dots> = (if k = 3 then to_premul L D ! idx w1 x y 3
                    else unpremultiply L (to_premul L D ! idx w1 x y k)
                           (to_premul L D ! idx w1 x y 3))"
    using lP assms(2,3,4) by (rule nth_to_rgba)
  also have "\<dots> = (if k = 3 then a else unpremultiply L (premultiply L v a) a)"
    using assms(4) P3 Pk by (cases "k = 3") auto
  finally show ?thesis .
qed


section \<open>The claims about combineImages\<close>

lemma rgba_alpha:
  assumes "wf_canvas c" "x < width c" "y < height c"
  shows "rgba L c x y 3 = data c ! idx (width c) x y 3"
  using assms nth_to_rgba [of "data c" "width c" "height c" x y 3 L]
  by (simp add: rgba_def wf_canvas_def)

lemma rgba_colour:
  assumes "wf_canvas c" "x < width c" "y < height c" "k < 3"
  shows "rgba L c x y k =
           unpremultiply L (data c ! idx (width c) x y k) (data c ! idx (width c) x y 3)"
  using assms nth_to_rgba [of "data c" "width c" "height c" x y k L]
  by (simp add: rgba_def wf_canvas_def)




lemma combineImages_Wide_B:
  "combineImages truncating [canvasWide, canvasB] 0 1 =
     (Inr 2, [canvasWide, canvasB, \<lparr>width = 3, height = 2,
        data = [101, 102, 103, 255, 5, 6, 7, 255, 109, 110, 111, 255,
                109, 110, 111, 255, 17, 18, 19, 255, 0, 0, 0, 255]\<rparr>])"
  by code_simp

lemma combineImages_zero_width:
  "combineImages truncating [narrow0, narrow0] 0 1 =
     (Inl IndexSizeError, [narrow0, narrow0, narrow0])"
  by code_simp

lemma combineImages_A_zero_width:
  "combineImages truncating [canvasA, narrow0] 0 1 =
     (Inl IndexSizeError, [canvasA, narrow0, canvasA])"
  by code_simp

text \<open>The example of two 2 by 2 canvases, one red and one blue, both opaque: the even column
  becomes blue, the odd column stays red.\<close>

lemma combineImages_red_blue:
  "combineImages truncating [red2, blue2] 0 1 =
     (Inr 2, [red2, blue2, \<lparr>width = 2, height = 2,
        data = [0, 0, 255, 255, 255, 0, 0, 255, 0, 0, 255, 255, 255, 0, 0, 255]\<rparr>])"
  by code_simp


text \<open>
  C2. The claim is that \<open>combineImages\<close> fails on canvases of different sizes and has no
  other failure. The code has no check of the sizes: on a canvas 3 wide and one 2 wide it
  returns a canvas. It does fail on two canvases of the same size when that size has
  width 0, with the exception of \<open>getImageData\<close>.
\<close>

theorem combineImages_mismatch_counterexample:
  "width canvasWide \<noteq> width canvasB \<and>
   combineImages truncating [canvasWide, canvasB] 0 1 =
     (Inr 2, [canvasWide, canvasB, \<lparr>width = 3, height = 2,
        data = [101, 102, 103, 255, 5, 6, 7, 255, 109, 110, 111, 255,
                109, 110, 111, 255, 17, 18, 19, 255, 0, 0, 0, 255]\<rparr>]) \<and>
   combineImages truncating [narrow0, narrow0] 0 1 =
     (Inl IndexSizeError, [narrow0, narrow0, narrow0])"
  by code_simp

text \<open>
  C2, amended. \<open>combineImages\<close> does not compare the sizes of the two canvases and never
  fails with a dimension mismatch. It fails exactly when one of the two canvases has width
  or height 0, with the \<open>IndexSizeError\<close> of \<open>getImageData\<close>, whether the sizes are equal
  or not. For every two canvases of positive width and height, of equal sizes or not, it
  allocates one canvas and returns it, with the width, the height and the number of bytes
  of the first.
\<close>

theorem combineImages_fails_iff:
  assumes "img1 < length s" "img2 < length s"
    and "combineImages L s img1 img2 = (res, s')"
  shows "if width (s ! img1) = 0 \<or> height (s ! img1) = 0 \<or>
            width (s ! img2) = 0 \<or> height (s ! img2) = 0
         then res = Inl IndexSizeError
         else res = Inr (length s) \<and>
              width (s' ! length s) = width (s ! img1) \<and>
              height (s' ! length s) = height (s ! img1) \<and>
              length (data (s' ! length s)) = length (data (s ! img1))"
proof (cases "width (s ! img1) = 0 \<or> height (s ! img1) = 0 \<or>
              width (s ! img2) = 0 \<or> height (s ! img2) = 0")
  case True
  then show ?thesis
    using combineImages_throws [OF assms(1,2) True, of L] assms(3) by simp
next
  case False
  then have pos: "0 < width (s ! img1)" "0 < height (s ! img1)"
    "0 < width (s ! img2)" "0 < height (s ! img2)" by simp_all
  show ?thesis
    using combineImages_returns [OF assms(1,2) pos, of L] assms(3) False
    by (auto simp add: length_to_premul length_cols_loop length_to_rgba)
qed

theorem combineImages_fails_iff_witness:
  "fst (combineImages truncating [canvasWide, canvasB] 0 1) = Inr 2 \<and>
   width (snd (combineImages truncating [canvasWide, canvasB] 0 1) ! 2) = 3 \<and>
   fst (combineImages truncating [narrow0, narrow0] 0 1) = Inl IndexSizeError"
proof -
  have h: "0 < length [canvasWide, canvasB]" "1 < length [canvasWide, canvasB]"
    and g: "0 < length [narrow0, narrow0]" "1 < length [narrow0, narrow0]" by simp_all
  show ?thesis
    using combineImages_fails_iff [OF h combineImages_Wide_B]
      combineImages_fails_iff [OF g combineImages_zero_width]
      combineImages_Wide_B combineImages_zero_width
    by (simp add: canvasWide_def canvasB_def narrow0_def)
qed


text \<open>With conversions that round to the nearest byte the same canvas comes back
  unchanged.\<close>

lemma combineImages_self_rounding:
  "combineImages rounding [faint1] 0 0 = (Inr 1, [faint1, faint1])"
  by code_simp





lemma narrow_ratio: "\<not> 1 < fl (1 / 1000)"
  by code_simp

lemma narrow_width: "nat (Math_round (fl (300 * fl (1 / 1000)))) = 0"
  by code_simp

lemma newSize_narrow: "newSize 1 1000 400 300 = (0, 300)"
  by (simp add: newSize_def Let_def narrow_ratio narrow_width)

text \<open>
  C10. The claim is that \<open>combineImages\<close> runs to completion for every two canvases. When
  one of them has width or height 0, \<open>getImageData\<close> throws: with a second canvas of 0 by
  300, the size that the variant keeping the aspect ratio gives a source of 1 by 1000 in
  the target 400 by 300, the call ends with \<open>IndexSizeError\<close>.
\<close>

theorem combineImages_zero_size_counterexample:
  "combineImages truncating [canvasA, narrow0] 0 1 =
     (Inl IndexSizeError, [canvasA, narrow0, canvasA]) \<and>
   width narrow0 = 0 \<and> height narrow0 = 300 \<and>
   newSize 1 1000 400 300 = (0, 300)"
  using combineImages_A_zero_width newSize_narrow by (simp add: narrow0_def)

text \<open>
  C10, amended. For every two canvases of positive width and height, of equal sizes or
  not, \<open>combineImages\<close> returns a canvas with the width and height of the first, and the
  alpha channel of the first. At an even column the red, green and blue bytes are read
  from the image data of the second canvas at the position computed with the width of
  the second canvas: 0 when that position is outside the image data; otherwise the byte
  there, which belongs to pixel \<open>(x mod w2, y + x div w2)\<close> of the second canvas. At an
  odd column they are those of the first canvas. Where the first canvas has alpha 255
  the result shows these bytes as they are; under a smaller alpha they are premultiplied
  by it and divided again.
\<close>

theorem combineImages_unequal_sizes:
  assumes "img1 < length s" "img2 < length s" and "wf_canvas (s ! img1)"
    and "0 < width (s ! img2)" "0 < height (s ! img2)"
    and "combineImages L s img1 img2 = (res, s')"
    and "x < width (s ! img1)" "y < height (s ! img1)" "k < 4"
    and "j = idx (width (s ! img2)) x y k"
    and "a = rgba L (s ! img1) x y 3"
    and "v = (if even x \<and> k < 3
              then (if j < length (data (s ! img2)) then to_rgba L (data (s ! img2)) ! j else 0)
              else rgba L (s ! img1) x y k)"
  shows "res = Inr (length s) \<and>
         width (s' ! length s) = width (s ! img1) \<and>
         height (s' ! length s) = height (s ! img1) \<and>
         rgba L (s' ! length s) x y k =
           (if k = 3 then a else unpremultiply L (premultiply L v a) a) \<and>
         (a = 255 \<longrightarrow> rgba L (s' ! length s) x y k = v) \<and>
         j = idx (width (s ! img2)) (x mod width (s ! img2)) (y + x div width (s ! img2)) k"
proof -
  let ?w = "width (s ! img1)" and ?h = "height (s ! img1)" and ?w2 = "width (s ! img2)"
  let ?d1 = "data (s ! img1)" and ?v2 = "to_rgba L (data (s ! img2))"
  let ?c = "\<lparr>width = ?w, height = ?h,
              data = to_premul L (cols_loop ?w ?h ?w2 ?v2 0 (to_rgba L ?d1))\<rparr>"
  have pos: "0 < ?w" "0 < ?h" using assms(7,8) by simp_all
  have "combineImages L s img1 img2 = (Inr (length s), s @ [?c])"
    using combineImages_returns [OF assms(1,2) pos assms(4,5), of L] by simp
  with assms(6) have res: "res = Inr (length s)" and out: "s' ! length s = ?c" by auto
  have len1: "length ?d1 = ?w * ?h * 4" using assms(3) by (simp add: wf_canvas_def)
  have a: "a = ?d1 ! idx ?w x y 3"
    using rgba_alpha [OF assms(3,7,8), of L] by (simp add: assms(11))
  have r: "to_u8 (rd ?v2 j) = (if j < length (data (s ! img2)) then ?v2 ! j else 0)"
    by (simp add: rd_def to_u8_def length_to_rgba)
  define v' where
    "v' = (if even x then to_u8 (rd ?v2 (idx ?w2 x y k)) else to_rgba L ?d1 ! idx ?w x y k)"
  have g: "rgba L ?c x y k = (if k = 3 then a else unpremultiply L (premultiply L v' a) a)"
    using len1 assms(7,8,9) refl a v'_def by (rule rgba_combined)
  have "k < 3 \<Longrightarrow> v' = v" using r by (simp add: v'_def assms(10,12) rgba_def)
  with g have f: "rgba L ?c x y k = (if k = 3 then a else unpremultiply L (premultiply L v a) a)"
    using assms(9) by (cases "k = 3") auto
  have "k = 3 \<Longrightarrow> v = a" by (simp add: assms(11,12))
  with f have o: "a = 255 \<longrightarrow> rgba L ?c x y k = v"
    by (cases "k = 3") (auto simp add: opaque_round_trip)
  have w: "j = idx ?w2 (x mod ?w2) (y + x div ?w2) k"
    unfolding assms(10) using assms(4) by (rule idx_wrap)
  show ?thesis using res f o w by (simp add: out)
qed

theorem combineImages_unequal_sizes_witness:
  "combineImages truncating [canvasWide, canvasB] 0 1 =
     (Inr 2, [canvasWide, canvasB, \<lparr>width = 3, height = 2,
        data = [101, 102, 103, 255, 5, 6, 7, 255, 109, 110, 111, 255,
                109, 110, 111, 255, 17, 18, 19, 255, 0, 0, 0, 255]\<rparr>]) \<and>
   rgba truncating \<lparr>width = 3, height = 2,
        data = [101, 102, 103, 255, 5, 6, 7, 255, 109, 110, 111, 255,
                109, 110, 111, 255, 17, 18, 19, 255, 0, 0, 0, 255]\<rparr> 2 0 1 =
     to_rgba truncating (data canvasB) ! 9 \<and>
   9 = idx 2 0 1 1 \<and>
   rgba truncating \<lparr>width = 3, height = 2,
        data = [101, 102, 103, 255, 5, 6, 7, 255, 109, 110, 111, 255,
                109, 110, 111, 255, 17, 18, 19, 255, 0, 0, 0, 255]\<rparr> 2 1 0 = 0"
proof -
  note c = combineImages_Wide_B
  have h: "0 < length [canvasWide, canvasB]" "1 < length [canvasWide, canvasB]"
    "wf_canvas ([canvasWide, canvasB] ! 0)"
    "0 < width ([canvasWide, canvasB] ! 1)" "0 < height ([canvasWide, canvasB] ! 1)"
    by (simp_all add: wf_canvas_def canvasWide_def canvasB_def)
  have d: "2 < width ([canvasWide, canvasB] ! 0)" "0 < height ([canvasWide, canvasB] ! 0)"
    "(1::nat) < 4" "9 = idx (width ([canvasWide, canvasB] ! 1)) 2 0 1"
    by (simp_all add: canvasWide_def canvasB_def idx_def)
  have e: "2 < width ([canvasWide, canvasB] ! 0)" "1 < height ([canvasWide, canvasB] ! 0)"
    "(0::nat) < 4" "16 = idx (width ([canvasWide, canvasB] ! 1)) 2 1 0"
    by (simp_all add: canvasWide_def canvasB_def idx_def)
  have a: "rgba truncating ([canvasWide, canvasB] ! 0) 2 0 3 = 255"
    "rgba truncating ([canvasWide, canvasB] ! 0) 2 1 3 = 255" by code_simp+
  show ?thesis
    using c combineImages_unequal_sizes [OF h c d refl refl]
      combineImages_unequal_sizes [OF h c e refl refl] a
    by (simp add: canvasB_def opaque_round_trip)
qed

section \<open>The claims about loading and resizing (imageCombiner.ts)\<close>

lemma loadAndResizeImage_eq:
  "loadAndResizeImage loadImage resample s filePath w h =
     (case loadImage filePath of
        Inl msg \<Rightarrow> Inl (Error (''Failed to load image from '' @ filePath @ '': '' @ msg))
      | Inr img \<Rightarrow>
          Inr (length s,
               s @ [\<lparr>width = w, height = h, data = map (resample img w h) [0..<w * h * 4]\<rparr>]))"
  by (simp add: loadAndResizeImage_def loadImageWithPath_def createCanvas_def
      drawImageScaled_def Let_def split: sum.split)

text \<open>
  C5. When the source loads and the target width and height are positive,
  \<open>loadAndResizeImage\<close> returns a well-formed canvas of exactly that width and height.
\<close>

theorem loadAndResizeImage_exact_size:
  assumes "loadImage filePath = Inr img" and "0 < w" "0 < h"
  shows "\<exists>r s'. loadAndResizeImage loadImage resample s filePath w h = Inr (r, s') \<and>
                width (s' ! r) = w \<and> height (s' ! r) = h \<and> wf_canvas (s' ! r)"
  using assms by (simp add: loadAndResizeImage_eq wf_canvas_def)

theorem loadAndResizeImage_exact_size_witness:
  "\<exists>r s'. loadAndResizeImage files nearest [] ''a.png'' 5 7 = Inr (r, s') \<and>
            width (s' ! r) = 5 \<and> height (s' ! r) = 7 \<and> wf_canvas (s' ! r)"
proof -
  have h: "files ''a.png'' = Inr (blank_image 3 2)" "(0::nat) < 5" "(0::nat) < 7"
    by (simp_all add: files_def)
  show ?thesis
    using h loadAndResizeImage_exact_size
      [where loadImage = files and filePath = "''a.png''" and img = "blank_image 3 2"
         and w = 5 and h = 7 and resample = nearest and s = "[]"]
    by simp
qed

text \<open>
  C7. The claim is that a target width or height of 0 is rejected before a canvas is
  allocated. The code has no such check: with a target width of 0 it allocates a canvas.
\<close>

theorem loadAndResizeImage_zero_width_counterexample:
  "loadAndResizeImage files nearest [] ''a.png'' 0 5 =
     Inr (0, [\<lparr>width = 0, height = 5, data = []\<rparr>])"
  by (simp add: loadAndResizeImage_eq files_def)

text \<open>
  C7, amended. \<open>loadAndResizeImage\<close> does not look at the target size: it fails exactly
  when the source does not load, with the error of the loader wrapped, and otherwise
  allocates a canvas of the target width and height, whatever they are.
\<close>

theorem loadAndResizeImage_no_size_check:
  "(loadImage filePath = Inl msg \<longrightarrow>
      loadAndResizeImage loadImage resample s filePath w h =
        Inl (Error (''Failed to load image from '' @ filePath @ '': '' @ msg))) \<and>
   (loadImage filePath = Inr img \<longrightarrow>
      (\<exists>d. loadAndResizeImage loadImage resample s filePath w h =
             Inr (length s, s @ [\<lparr>width = w, height = h, data = d\<rparr>])))"
  by (simp add: loadAndResizeImage_eq)

theorem loadAndResizeImage_no_size_check_witness:
  "loadAndResizeImage files nearest [] ''none.png'' 0 0 =
     Inl (Error ''Failed to load image from none.png: ENOENT'') \<and>
   (\<exists>d. loadAndResizeImage files nearest [] ''a.png'' 0 5 =
          Inr (0, [\<lparr>width = 0, height = 5, data = d\<rparr>]))"
proof -
  have a: "files ''none.png'' = Inl ''ENOENT''" and b: "files ''a.png'' = Inr (blank_image 3 2)"
    by (simp_all add: files_def)
  show ?thesis
    using loadAndResizeImage_no_size_check
      [where loadImage = files and filePath = "''none.png''" and msg = "''ENOENT''"
         and resample = nearest and s = "[]" and w = 0 and h = 0]
      loadAndResizeImage_no_size_check
      [where loadImage = files and filePath = "''a.png''" and img = "blank_image 3 2"
         and resample = nearest and s = "[]" and w = 0 and h = 5]
      a b
    by simp
qed

text \<open>
  C6. When both sources load, \<open>processImages\<close> resizes both to the minimum of the two
  natural widths and the minimum of the two natural heights; both resized canvases have
  exactly that size when they are passed to \<open>combineImages\<close>. The result of
  \<open>processImages\<close> is that of this call: its canvas saved, or its exception; with a
  positive common width and height the call returns and the canvas is saved.
\<close>

theorem processImages_common_size:
  assumes "loadImage (image1Path args) = Inr img1" "loadImage (image2Path args) = Inr img2"
    and "cw = min (img_width img1) (img_width img2)"
    and "ch = min (img_height img1) (img_height img2)"
  shows "\<exists>r1 s1 r2 s2 res s3.
           loadAndResizeImage loadImage resample s (image1Path args) cw ch = Inr (r1, s1) \<and>
           loadAndResizeImage loadImage resample s1 (image2Path args) cw ch = Inr (r2, s2) \<and>
           width (s2 ! r1) = cw \<and> height (s2 ! r1) = ch \<and> wf_canvas (s2 ! r1) \<and>
           width (s2 ! r2) = cw \<and> height (s2 ! r2) = ch \<and> wf_canvas (s2 ! r2) \<and>
           combineImages L s2 r1 r2 = (res, s3) \<and>
           processImages L loadImage resample s args =
             (case res of Inl e \<Rightarrow> Inl e
                        | Inr r3 \<Rightarrow> Inr (s3, saveImage (outputPath args) s3 r3)) \<and>
           (0 < cw \<and> 0 < ch \<longrightarrow>
              (\<exists>r3. res = Inr r3 \<and>
                 processImages L loadImage resample s args =
                   Inr (s3, saveImage (outputPath args) s3 r3)))"
proof -
  let ?c1 = "\<lparr>width = cw, height = ch, data = map (resample img1 cw ch) [0..<cw * ch * 4]\<rparr>"
  let ?c2 = "\<lparr>width = cw, height = ch, data = map (resample img2 cw ch) [0..<cw * ch * 4]\<rparr>"
  let ?s1 = "s @ [?c1]" and ?s2 = "s @ [?c1, ?c2]"
  have l1: "loadAndResizeImage loadImage resample s (image1Path args) cw ch = Inr (length s, ?s1)"
    using assms(1) by (simp add: loadAndResizeImage_eq)
  have l2: "loadAndResizeImage loadImage resample ?s1 (image2Path args) cw ch =
              Inr (Suc (length s), ?s2)"
    using assms(2) by (simp add: loadAndResizeImage_eq)
  obtain res s3 where c: "combineImages L ?s2 (length s) (Suc (length s)) = (res, s3)"
    by (cases "combineImages L ?s2 (length s) (Suc (length s))")
  have p: "processImages L loadImage resample s args =
             (case res of Inl e \<Rightarrow> Inl e
                        | Inr r3 \<Rightarrow> Inr (s3, saveImage (outputPath args) s3 r3))"
    using assms l1 l2 c
    by (simp add: processImages_def loadImageWithPath_def Let_def split: sum.split)
  have d: "?s2 ! length s = ?c1" "?s2 ! Suc (length s) = ?c2"
    by (simp_all add: nth_append)
  have w: "wf_canvas ?c1" "wf_canvas ?c2" by (simp_all add: wf_canvas_def)
  have q: "0 < cw \<and> 0 < ch \<longrightarrow>
             (\<exists>r3. res = Inr r3 \<and>
                processImages L loadImage resample s args =
                  Inr (s3, saveImage (outputPath args) s3 r3))"
  proof
    assume pos: "0 < cw \<and> 0 < ch"
    have "combineImages L ?s2 (length s) (Suc (length s)) =
            (Inr (length ?s2),
             ?s2 @ [\<lparr>width = width (?s2 ! length s), height = height (?s2 ! length s),
                  data = to_premul L
                    (cols_loop (width (?s2 ! length s)) (height (?s2 ! length s))
                       (width (?s2 ! Suc (length s)))
                       (to_rgba L (data (?s2 ! Suc (length s)))) 0
                       (to_rgba L (data (?s2 ! length s))))\<rparr>])"
      using pos by (intro combineImages_returns) (simp_all add: d)
    with c have "res = Inr (length ?s2)" by simp
    with p show "\<exists>r3. res = Inr r3 \<and>
                processImages L loadImage resample s args =
                  Inr (s3, saveImage (outputPath args) s3 r3)"
      by simp
  qed
  from l1 l2 c p q d w show ?thesis by (intro exI conjI) simp_all
qed

theorem processImages_common_size_witness:
  "\<exists>r1 s1 r2 s2 s3 r3.
     loadAndResizeImage files nearest [] ''a.png'' 2 2 = Inr (r1, s1) \<and>
     loadAndResizeImage files nearest s1 ''b.png'' 2 2 = Inr (r2, s2) \<and>
     width (s2 ! r1) = 2 \<and> height (s2 ! r1) = 2 \<and> wf_canvas (s2 ! r1) \<and>
     width (s2 ! r2) = 2 \<and> height (s2 ! r2) = 2 \<and> wf_canvas (s2 ! r2) \<and>
     combineImages truncating s2 r1 r2 = (Inr r3, s3) \<and>
     processImages truncating files nearest []
       \<lparr>image1Path = ''a.png'', image2Path = ''b.png'', outputPath = ''out.png''\<rparr> =
       Inr (s3, saveImage ''out.png'' s3 r3)"
proof -
  let ?args = "\<lparr>image1Path = ''a.png'', image2Path = ''b.png'', outputPath = ''out.png''\<rparr>"
  have h: "files (image1Path ?args) = Inr (blank_image 3 2)"
    "files (image2Path ?args) = Inr (blank_image 2 4)"
    "2 = min (img_width (blank_image 3 2)) (img_width (blank_image 2 4))"
    "2 = min (img_height (blank_image 3 2)) (img_height (blank_image 2 4))"
    by (simp_all add: files_def blank_image_def)
  from processImages_common_size [OF h, where resample = nearest and s = "[]"
      and L = truncating]
  obtain r1 s1 r2 s2 res s3 where
    a: "loadAndResizeImage files nearest [] (image1Path ?args) 2 2 = Inr (r1, s1)"
      "loadAndResizeImage files nearest s1 (image2Path ?args) 2 2 = Inr (r2, s2)"
      "width (s2 ! r1) = 2" "height (s2 ! r1) = 2" "wf_canvas (s2 ! r1)"
      "width (s2 ! r2) = 2" "height (s2 ! r2) = 2" "wf_canvas (s2 ! r2)"
      "combineImages truncating s2 r1 r2 = (res, s3)"
    and b: "(0::nat) < 2 \<and> (0::nat) < 2 \<longrightarrow>
              (\<exists>r3. res = Inr r3 \<and>
                 processImages truncating files nearest [] ?args =
                   Inr (s3, saveImage (outputPath ?args) s3 r3))"
    by blast
  from b obtain r3 where "res = Inr r3"
    "processImages truncating files nearest [] ?args = Inr (s3, saveImage (outputPath ?args) s3 r3)"
    by auto
  with a show ?thesis by (intro exI [of _ r1] exI [of _ s1] exI [of _ r2] exI [of _ s2]
      exI [of _ s3] exI [of _ r3]) simp
qed

section \<open>Properties of the rounding\<close>

lemma round_half_even_le: "x \<le> of_int N \<Longrightarrow> round_half_even x \<le> N"
proof -
  assume a: "x \<le> of_int N"
  then have f: "\<lfloor>x\<rfloor> \<le> N" by (simp add: floor_le_iff)
  show ?thesis
  proof (cases "x = of_int \<lfloor>x\<rfloor>")
    case True
    then have "x - of_int \<lfloor>x\<rfloor> < 1 / 2" by simp
    with f show ?thesis by (simp add: round_half_even_def Let_def)
  next
    case False
    then have "of_int \<lfloor>x\<rfloor> < x" using of_int_floor_le [of x] by linarith
    with a have "of_int \<lfloor>x\<rfloor> < (of_int N :: rat)" by linarith
    then have "\<lfloor>x\<rfloor> < N" by simp
    with f show ?thesis by (simp add: round_half_even_def Let_def)
  qed
qed

lemma round_half_even_ge: "of_int N \<le> x \<Longrightarrow> N \<le> round_half_even x"
proof -
  assume "of_int N \<le> x"
  then have "N \<le> \<lfloor>x\<rfloor>" by (simp add: le_floor_iff)
  then show ?thesis by (simp add: round_half_even_def Let_def)
qed

lemma powi_neg: "0 \<le> k \<Longrightarrow> (2::rat) powi (- k) = 1 / 2 ^ nat k"
  by (simp only: power_int_minus_divide power_int_nonneg_exp)

lemma expo_bounds:
  assumes "0 < x"
  shows "2 powi (expo x) \<le> x \<and> x < 2 powi (expo x + 1)"
proof (cases "1 \<le> x")
  case True
  define n where "n = \<lfloor>x\<rfloor>"
  define b where "b = bitlen n"
  have n: "0 < n" using True by (simp add: n_def)
  from bitlen_bounds [OF n] have lo: "2 ^ nat (b - 1) \<le> n" and hi: "n < 2 ^ nat b"
    by (simp_all add: b_def)
  have b1: "1 \<le> b" using n bitlen_eq_zero_iff [of n] bitlen_nonneg [of n]
    by (simp add: b_def)
  have e: "expo x = b - 1" using True by (simp add: expo_def n_def b_def)
  have "(2::rat) powi (b - 1) = of_int (2 ^ nat (b - 1))"
    using b1 by (simp add: power_int_nonneg_exp)
  also have "\<dots> \<le> of_int n" using lo by (simp only: of_int_le_iff)
  also have "\<dots> \<le> x" by (simp add: n_def)
  finally have l: "2 powi (b - 1) \<le> x" .
  have "n + 1 \<le> 2 ^ nat b" using hi by simp
  then have "(of_int (n + 1) :: rat) \<le> of_int (2 ^ nat b)" by (simp only: of_int_le_iff)
  moreover have "x < of_int (n + 1)" using floor_correct [of x] by (simp add: n_def)
  ultimately have "x < of_int (2 ^ nat b)" by linarith
  also have "\<dots> = 2 powi b" using b1 by (simp add: power_int_nonneg_exp)
  finally have "x < 2 powi (b - 1 + 1)" by simp
  with l e show ?thesis by simp
next
  case False
  define y where "y = 1 / x"
  define m where "m = \<lceil>y\<rceil> - 1"
  define c where "c = bitlen m"
  have y1: "1 < y" using False assms by (simp add: y_def)
  have xy: "x = 1 / y" by (simp add: y_def)
  have "1 < \<lceil>y\<rceil>" using y1 by (simp add: less_ceiling_iff)
  then have m: "0 < m" by (simp add: m_def)
  from bitlen_bounds [OF m] have lo: "2 ^ nat (c - 1) \<le> m" and hi: "m < 2 ^ nat c"
    by (simp_all add: c_def)
  have c1: "1 \<le> c" using m bitlen_eq_zero_iff [of m] bitlen_nonneg [of m]
    by (simp add: c_def)
  have e: "expo x = - c" using False by (simp add: expo_def y_def m_def c_def)
  have my: "of_int m < y" "y \<le> of_int m + 1"
    using ceiling_correct [of y] by (simp_all add: m_def)
  have "m + 1 \<le> 2 ^ nat c" using hi by simp
  then have "(of_int (m + 1) :: rat) \<le> of_int (2 ^ nat c)" by (simp only: of_int_le_iff)
  with my have yhi: "y \<le> 2 ^ nat c" by simp
  have "(of_int (2 ^ nat (c - 1)) :: rat) \<le> of_int m" using lo by (simp only: of_int_le_iff)
  then have "(of_int (2 ^ nat (c - 1)) :: rat) < y" using my(1) by (rule le_less_trans)
  then have ylo: "2 ^ nat (c - 1) < y" by simp
  have "(2::rat) powi (- c) = 1 / 2 ^ nat c"
    using c1 by (simp only: powi_neg [of c])
  also have "\<dots> \<le> 1 / y" using yhi y1 by (intro divide_left_mono) simp_all
  finally have l: "2 powi (- c) \<le> x" by (simp add: xy)
  have "1 / y < 1 / 2 ^ nat (c - 1)" using ylo y1 by (intro divide_strict_left_mono) simp_all
  also have "\<dots> = (2::rat) powi (- (c - 1))"
    using c1 by (simp only: powi_neg [of "c - 1"])
  finally have "x < 2 powi (- (c - 1))" by (simp only: xy)
  moreover have "- (c - 1) = - c + 1" by simp
  ultimately have "x < 2 powi (- c + 1)" by (simp only:)
  with l e show ?thesis by simp
qed

lemma powi_cancel: "(2::rat) powi (e - 52) * 2 powi (52 - e) = 1"
proof -
  have "(2::rat) powi (e - 52) * 2 powi (52 - e) = 2 powi ((e - 52) + (52 - e))"
    by (rule power_int_add [symmetric]) simp
  then show ?thesis by simp
qed

lemma fl_pos_le_grid:
  assumes "x \<le> of_int N * 2 powi (expo x - 52)"
  shows "fl_pos x \<le> of_int N * 2 powi (expo x - 52)"
proof -
  let ?e = "expo x"
  have "x * 2 powi (52 - ?e) \<le> of_int N * 2 powi (?e - 52) * 2 powi (52 - ?e)"
    using assms by (intro mult_right_mono) simp_all
  then have "x * 2 powi (52 - ?e) \<le> of_int N"
    by (simp only: mult.assoc powi_cancel mult_1_right)
  then have "round_half_even (x * 2 powi (52 - ?e)) \<le> N" by (rule round_half_even_le)
  then have "(of_int (round_half_even (x * 2 powi (52 - ?e))) :: rat) \<le> of_int N"
    by (simp only: of_int_le_iff)
  then show ?thesis unfolding fl_pos_def Let_def by (intro mult_right_mono) simp_all
qed

lemma fl_pos_ge_grid:
  assumes "of_int N * 2 powi (expo x - 52) \<le> x"
  shows "of_int N * 2 powi (expo x - 52) \<le> fl_pos x"
proof -
  let ?e = "expo x"
  have "of_int N * 2 powi (?e - 52) * 2 powi (52 - ?e) \<le> x * 2 powi (52 - ?e)"
    using assms by (intro mult_right_mono) simp_all
  then have "of_int N \<le> x * 2 powi (52 - ?e)"
    by (simp only: mult.assoc powi_cancel mult_1_right)
  then have "N \<le> round_half_even (x * 2 powi (52 - ?e))" by (rule round_half_even_ge)
  then have "(of_int N :: rat) \<le> of_int (round_half_even (x * 2 powi (52 - ?e)))"
    by (simp only: of_int_le_iff)
  then show ?thesis unfolding fl_pos_def Let_def by (intro mult_right_mono) simp_all
qed

lemma fl_pos_ge_pow:
  assumes "0 < x"
  shows "2 powi (expo x) \<le> fl_pos x"
proof -
  have "(2::rat) powi (expo x) = 2 powi (52 + (expo x - 52))" by simp
  also have "\<dots> = 2 powi 52 * 2 powi (expo x - 52)" by (rule power_int_add) simp
  also have "\<dots> = of_int (2 ^ 52) * 2 powi (expo x - 52)" by simp
  finally have g: "(2::rat) powi (expo x) = of_int (2 ^ 52) * 2 powi (expo x - 52)" .
  have "of_int (2 ^ 52) * 2 powi (expo x - 52) \<le> fl_pos x"
    using expo_bounds [OF assms] by (intro fl_pos_ge_grid) (simp only: g [symmetric])
  then show ?thesis by (simp only: g)
qed

lemma fl_positive: "0 < x \<Longrightarrow> 0 < fl x"
proof -
  assume a: "0 < x"
  have "(0::rat) < 2 powi (expo x)" by simp
  also have "\<dots> \<le> fl_pos x" using a by (rule fl_pos_ge_pow)
  finally show ?thesis using a by (simp add: fl_def)
qed

lemma expo_less_53:
  assumes "0 < x" "x < 2 ^ 53"
  shows "expo x \<le> 52"
proof (rule ccontr)
  assume "\<not> expo x \<le> 52"
  then have "53 \<le> expo x" by simp
  then have "(2::rat) powi 53 \<le> 2 powi (expo x)" by (intro power_int_increasing) simp_all
  also have "\<dots> \<le> x" using expo_bounds [OF assms(1)] by simp
  finally show False using assms(2) by simp
qed

lemma nat_on_grid:
  assumes "e \<le> 52"
  shows "of_int (int n * 2 ^ nat (52 - e)) * (2::rat) powi (e - 52) = of_nat n"
proof -
  have "(2::rat) ^ nat (52 - e) = 2 powi (52 - e)"
    using assms by (simp add: power_int_nonneg_exp)
  then have "of_int (int n * 2 ^ nat (52 - e)) * (2::rat) powi (e - 52) =
             of_nat n * (2 powi (52 - e) * 2 powi (e - 52))"
    by simp
  also have "\<dots> = of_nat n" by (simp only: mult.commute [of "2 powi (52 - e)"] powi_cancel mult_1_right)
  finally show ?thesis .
qed

lemma fl_le_nat:
  assumes "0 < x" "x \<le> of_nat n" "n < 2 ^ 53"
  shows "fl x \<le> of_nat n"
proof -
  have "(of_nat n :: rat) < of_nat (2 ^ 53)" using assms(3) by (simp only: of_nat_less_iff)
  then have "x < 2 ^ 53" using assms(2) by simp
  then have e: "expo x \<le> 52" using assms(1) by (intro expo_less_53)
  have "fl_pos x \<le> of_int (int n * 2 ^ nat (52 - expo x)) * 2 powi (expo x - 52)"
    using assms(2) by (intro fl_pos_le_grid) (simp only: nat_on_grid [OF e])
  then show ?thesis using assms(1) by (simp only: nat_on_grid [OF e] fl_def) simp
qed

lemma fl_ge_nat:
  assumes "of_nat n \<le> x" "0 < x" "x < 2 ^ 53"
  shows "of_nat n \<le> fl x"
proof -
  have e: "expo x \<le> 52" using assms(2,3) by (intro expo_less_53)
  have "of_int (int n * 2 ^ nat (52 - expo x)) * 2 powi (expo x - 52) \<le> fl_pos x"
    using assms(1) by (intro fl_pos_ge_grid) (simp only: nat_on_grid [OF e])
  then show ?thesis using assms(2) by (simp only: nat_on_grid [OF e] fl_def) simp
qed

lemma fl_of_nat:
  assumes "n < 2 ^ 53"
  shows "fl (of_nat n) = of_nat n"
proof (cases "n = 0")
  case True
  then show ?thesis by (simp add: fl_def)
next
  case False
  then have p: "(0::rat) < of_nat n" by simp
  have "(of_nat n :: rat) < of_nat (2 ^ 53)" using assms by (simp only: of_nat_less_iff)
  then have l: "(of_nat n :: rat) < 2 ^ 53" by simp
  have "fl (of_nat n) \<le> of_nat n" using p assms by (intro fl_le_nat) simp_all
  moreover have "of_nat n \<le> fl (of_nat n)" using p l by (intro fl_ge_nat) simp_all
  ultimately show ?thesis by simp
qed

lemma fl_gt_one:
  assumes "1 + 1 / 2 ^ 52 \<le> x"
  shows "1 < fl x"
proof -
  have x1: "1 < x"
  proof -
    have "(1::rat) < 1 + 1 / 2 ^ 52" by simp
    then show ?thesis using assms by (rule less_le_trans)
  qed
  then have x0: "0 < x" by simp
  have e0: "0 \<le> expo x"
  proof (rule ccontr)
    assume "\<not> 0 \<le> expo x"
    then have "expo x + 1 \<le> 0" by simp
    then have "(2::rat) powi (expo x + 1) \<le> 2 powi 0" by (intro power_int_increasing) simp_all
    with expo_bounds [OF x0] x1 show False by simp
  qed
  show ?thesis
  proof (cases "expo x = 0")
    case True
    have g: "of_int (2 ^ 52 + 1) * (2::rat) powi (expo x - 52) = 1 + 1 / 2 ^ 52"
      by (simp add: True power_int_minus_divide)
    have "of_int (2 ^ 52 + 1) * 2 powi (expo x - 52) \<le> fl_pos x"
      using assms by (intro fl_pos_ge_grid) (simp only: g)
    then have "1 + 1 / 2 ^ 52 \<le> fl_pos x" by (simp only: g)
    moreover have "(1::rat) < 1 + 1 / 2 ^ 52" by simp
    ultimately have "1 < fl_pos x" by (rule less_le_trans [rotated])
    then show ?thesis using x0 by (simp add: fl_def)
  next
    case False
    with e0 have "1 \<le> expo x" by simp
    then have "(2::rat) powi 1 \<le> 2 powi (expo x)" by (intro power_int_increasing) simp_all
    also have "\<dots> \<le> fl_pos x" using x0 by (rule fl_pos_ge_pow)
    finally show ?thesis using x0 by (simp add: fl_def)
  qed
qed

lemma fl_le_one: "0 < x \<Longrightarrow> x \<le> 1 \<Longrightarrow> fl x \<le> 1"
  using fl_le_nat [of x 1] by simp

lemma aspectRatio_gt_one:
  assumes "0 < sw" "0 < sh" "sh < 2 ^ 52"
  shows "1 < fl (of_nat sw / of_nat sh) \<longleftrightarrow> sh < sw"
proof
  assume "sh < sw"
  then have "Suc sh \<le> sw" by simp
  then have "(of_nat (Suc sh) :: rat) \<le> of_nat sw" by (simp only: of_nat_le_iff)
  then have "of_nat sh + 1 \<le> (of_nat sw :: rat)" by simp
  then have "(of_nat sh + 1) / of_nat sh \<le> (of_nat sw :: rat) / of_nat sh"
    by (intro divide_right_mono) simp_all
  moreover have "(of_nat sh + 1) / of_nat sh = 1 + 1 / (of_nat sh :: rat)"
    using assms(2) by (simp add: field_simps)
  moreover have "1 / 2 ^ 52 \<le> 1 / (of_nat sh :: rat)"
  proof -
    have "sh \<le> 2 ^ 52" using assms(3) by simp
    then have "(of_nat sh :: rat) \<le> of_nat (2 ^ 52)" by (simp only: of_nat_le_iff)
    then have "(of_nat sh :: rat) \<le> 2 ^ 52" by simp
    then show ?thesis using assms(2) by (intro divide_left_mono) simp_all
  qed
  ultimately have "1 + 1 / 2 ^ 52 \<le> (of_nat sw :: rat) / of_nat sh" by linarith
  then show "1 < fl (of_nat sw / of_nat sh)" by (rule fl_gt_one)
next
  assume a: "1 < fl (of_nat sw / of_nat sh)"
  show "sh < sw"
  proof (rule ccontr)
    assume "\<not> sh < sw"
    then have "(of_nat sw :: rat) \<le> of_nat sh" by simp
    then have "(of_nat sw :: rat) / of_nat sh \<le> 1" using assms(2) by (simp add: field_simps)
    moreover have "0 < (of_nat sw :: rat) / of_nat sh" using assms by simp
    ultimately have "fl (of_nat sw / of_nat sh) \<le> 1" by (intro fl_le_one)
    with a show False by simp
  qed
qed

lemma Math_round_of_nat: "Math_round (of_nat n) = int n"
proof -
  have "\<lfloor>(of_nat n :: rat) + 1 / 2\<rfloor> = int n"
    by (rule floor_unique) simp_all
  then show ?thesis by (simp only: Math_round_def)
qed

lemma Math_round_le:
  assumes "x \<le> of_nat n"
  shows "nat (Math_round x) \<le> n"
proof -
  have "x + 1 / 2 \<le> of_nat n + 1 / 2" using assms by simp
  then have "\<lfloor>x + 1 / 2\<rfloor> \<le> \<lfloor>(of_nat n :: rat) + 1 / 2\<rfloor>" by (rule floor_mono)
  then have "Math_round x \<le> int n"
    using Math_round_of_nat [of n] by (simp only: Math_round_def)
  then show ?thesis by simp
qed

lemma img_width_blank [simp]: "img_width (blank_image w h) = w"
  by (simp add: blank_image_def)

lemma img_height_blank [simp]: "img_height (blank_image w h) = h"
  by (simp add: blank_image_def)

lemma canvas_size_js:
  assumes "loadImage path = Inr img"
  shows "canvas_size (loadAndResizeImage_js loadImage resample s path tw th) =
           Some (newSize (img_width img) (img_height img) tw th)"
  using assms
  by (simp add: canvas_size_def loadAndResizeImage_js_def createCanvas_def drawImageScaled_def
      Let_def split: prod.split)

lemma newSize_cases:
  assumes "0 < sw" "0 < sh" "sh < 2 ^ 52"
  shows "newSize sw sh tw th =
           (if sh < sw
            then (tw, nat (Math_round (fl (of_nat tw / fl (of_nat sw / of_nat sh)))))
            else (nat (Math_round (fl (of_nat th * fl (of_nat sw / of_nat sh)))), th))"
  using aspectRatio_gt_one [OF assms] by (simp add: newSize_def Let_def)

lemma newSize_square:
  assumes "0 < sw" "th < 2 ^ 53"
  shows "newSize sw sw tw th = (th, th)"
proof -
  have "(of_nat sw :: rat) / of_nat sw = 1" using assms(1) by simp
  moreover have "fl 1 = 1" using fl_of_nat [of 1] by simp
  ultimately have r: "fl ((of_nat sw :: rat) / of_nat sw) = 1" by simp
  have t: "fl (of_nat th) = of_nat th" using assms(2) by (rule fl_of_nat)
  show ?thesis unfolding newSize_def Let_def r by (simp add: t Math_round_of_nat)
qed

lemma newSize_landscape_bound:
  assumes "0 < sw" "0 < sh" "sh < 2 ^ 52" "sh < sw" "tw < 2 ^ 53"
  shows "fst (newSize sw sh tw th) = tw \<and> snd (newSize sw sh tw th) \<le> tw"
proof -
  define r where "r = fl (of_nat sw / of_nat sh)"
  have r1: "1 < r" using aspectRatio_gt_one [OF assms(1,2,3)] assms(4) by (simp add: r_def)
  have "of_nat tw / r \<le> of_nat tw / 1"
    using r1 by (intro divide_left_mono) simp_all
  then have q: "of_nat tw / r \<le> of_nat tw" by simp
  have "fl (of_nat tw / r) \<le> of_nat tw"
  proof (cases "tw = 0")
    case True
    then show ?thesis by (simp add: fl_def)
  next
    case False
    then have "0 < of_nat tw / r" using r1 by simp
    then show ?thesis using q assms(5) by (rule fl_le_nat)
  qed
  then have "nat (Math_round (fl (of_nat tw / r))) \<le> tw" by (rule Math_round_le)
  then show ?thesis using newSize_cases [OF assms(1,2,3)] assms(4) by (simp add: r_def)
qed

lemma newSize_portrait_bound:
  assumes "0 < sw" "0 < sh" "sh < 2 ^ 52" "sw \<le> sh" "th < 2 ^ 53"
  shows "snd (newSize sw sh tw th) = th \<and> fst (newSize sw sh tw th) \<le> th"
proof -
  define r where "r = fl (of_nat sw / of_nat sh)"
  have "\<not> 1 < r" using aspectRatio_gt_one [OF assms(1,2,3)] assms(4) by (simp add: r_def)
  then have r1: "r \<le> 1" by simp
  have r0: "0 < r" unfolding r_def using assms(1,2) by (intro fl_positive) simp
  have q: "of_nat th * r \<le> of_nat th"
    using r1 mult_left_mono [of r 1 "of_nat th"] by simp
  have "fl (of_nat th * r) \<le> of_nat th"
  proof (cases "th = 0")
    case True
    then show ?thesis by (simp add: fl_def)
  next
    case False
    then have "0 < of_nat th * r" using r0 by simp
    then show ?thesis using q assms(5) by (rule fl_le_nat)
  qed
  then have "nat (Math_round (fl (of_nat th * r))) \<le> th" by (rule Math_round_le)
  then show ?thesis using newSize_cases [OF assms(1,2,3)] assms(4) by (simp add: r_def)
qed

section \<open>The claims about resizing with the aspect ratio kept (imageCombiner.js)\<close>

lemma newSize_tall: "newSize 41 200 400 300 = (61, 300)"
  by code_simp

lemma newSize_wide: "newSize 200 100 400 100 = (400, 200)"
  by code_simp

lemma newSize_scenario: "newSize 200 100 100 100 = (100, 50)"
  by code_simp

lemma exact_tall: "nat (Math_round (300 * 41 / 200)) = 62"
  by code_simp

text \<open>The two binary64 numbers behind the first of these sizes: 0.205 is stored as
  \<open>7385903388887613 / 2 ^ 55\<close>, and 300 times that number rounds to
  \<open>8655355533852671 / 2 ^ 47\<close>, the binary64 number just below 61.5.\<close>

lemma fl_aspectRatio_tall: "fl (41 / 200) = 7385903388887613 / 2 ^ 55"
  by code_simp

lemma fl_product_tall: "fl (300 * (7385903388887613 / 2 ^ 55)) = 8655355533852671 / 2 ^ 47"
  by code_simp

lemma canvas_size_tall:
  "canvas_size (loadAndResizeImage_js files resample s ''tall.png'' tw th) = Some (newSize 41 200 tw th)"
  using canvas_size_js [where loadImage = files and path = "''tall.png''"
      and img = "blank_image 41 200"]
  by (simp add: files_def)

lemma canvas_size_wide:
  "canvas_size (loadAndResizeImage_js files resample s ''wide.png'' tw th) = Some (newSize 200 100 tw th)"
  using canvas_size_js [where loadImage = files and path = "''wide.png''"
      and img = "blank_image 200 100"]
  by (simp add: files_def)

lemma files_tall: "files ''tall.png'' = Inr (blank_image 41 200)"
  by (simp add: files_def)

lemma files_wide: "files ''wide.png'' = Inr (blank_image 200 100)"
  by (simp add: files_def)

lemma files_square: "files ''square.png'' = Inr (blank_image 50 50)"
  by (simp add: files_def)

text \<open>
  C3. The claim gives the width of a source that is not wider than high as
  \<open>round(targetHeight * sourceWidth / sourceHeight)\<close>. The code first rounds the quotient
  \<open>sourceWidth / sourceHeight\<close> to a binary64 number and then rounds the product: for a
  source of 41 by 200 and the target 400 by 300 of the program, the product is just below
  61.5 and the canvas is 61 wide, where the claim gives 62.
\<close>

theorem loadAndResizeImage_js_rounding_counterexample:
  "canvas_size (loadAndResizeImage_js files nearest [] ''tall.png'' 400 300) = Some (61, 300) \<and>
   \<not> 1 < (41::rat) / 200 \<and>
   nat (Math_round (300 * 41 / 200)) = 62"
proof -
  have a: "canvas_size (loadAndResizeImage_js files nearest [] ''tall.png'' 400 300) =
             Some (61, 300)"
    by (simp only: canvas_size_tall newSize_tall)
  have b: "\<not> 1 < (41::rat) / 200" by simp
  from a b exact_tall show ?thesis by (intro conjI)
qed

text \<open>
  C3, amended. For a source of positive width \<open>sw\<close> and height \<open>sh\<close> and a target, all
  below \<open>2 ^ 32\<close>, the canvas has the size: if \<open>sw > sh\<close>, the target width and \<open>Math.round(targetWidth / r)\<close>;
  otherwise \<open>Math.round(targetHeight * r)\<close> and the target height; where \<open>r\<close> is the
  binary64 quotient of \<open>sw\<close> by \<open>sh\<close>, and the quotient or product by \<open>r\<close> is rounded to
  binary64 again. A square source takes the second branch and gives the target height twice.
\<close>

theorem loadAndResizeImage_js_size:
  assumes "loadImage path = Inr img"
    and "0 < img_width img" "0 < img_height img" "img_height img < 2 ^ 32"
    and "r = fl (of_nat (img_width img) / of_nat (img_height img))"
    and "img_width img < 2 ^ 32" "tw < 2 ^ 32" "th < 2 ^ 32"
  shows "canvas_size (loadAndResizeImage_js loadImage resample s path tw th) =
           Some (if img_height img < img_width img
                 then (tw, nat (Math_round (fl (of_nat tw / r))))
                 else (nat (Math_round (fl (of_nat th * r))), th)) \<and>
         (img_width img = img_height img \<longrightarrow>
            canvas_size (loadAndResizeImage_js loadImage resample s path tw th) = Some (th, th))"
proof -
  have b: "img_height img < 2 ^ 52"
  proof -
    have "(2::nat) ^ 32 \<le> 2 ^ 52" by simp
    with assms(4) show ?thesis by (rule less_le_trans)
  qed
  have "img_width img = img_height img \<longrightarrow>
          newSize (img_width img) (img_height img) tw th = (th, th)"
  proof
    assume e: "img_width img = img_height img"
    have "(2::nat) ^ 32 \<le> 2 ^ 53" by simp
    with assms(8) have "th < 2 ^ 53" by (rule less_le_trans)
    with assms(3) show "newSize (img_width img) (img_height img) tw th = (th, th)"
      unfolding e by (rule newSize_square)
  qed
  then show ?thesis
    using canvas_size_js [where loadImage = loadImage and path = path, OF assms(1)]
    by (simp only: newSize_cases [OF assms(2,3) b] assms(5)) simp
qed

lemma scenario_height: "nat (Math_round (fl (100 / fl 2))) = 50"
  by code_simp

theorem loadAndResizeImage_js_size_witness:
  "canvas_size (loadAndResizeImage_js files nearest [] ''wide.png'' 100 100) = Some (100, 50) \<and>
   canvas_size (loadAndResizeImage_js files nearest [] ''square.png'' 400 300) = Some (300, 300)"
proof -
  have w: "0 < img_width (blank_image 200 100)" "0 < img_height (blank_image 200 100)"
    "img_height (blank_image 200 100) < 2 ^ 32"
    and q: "0 < img_width (blank_image 50 50)" "0 < img_height (blank_image 50 50)"
    "img_height (blank_image 50 50) < 2 ^ 32"
    and v: "img_width (blank_image 200 100) < 2 ^ 32" "img_width (blank_image 50 50) < 2 ^ 32"
    and t: "(100::nat) < 2 ^ 32" "(400::nat) < 2 ^ 32" "(300::nat) < 2 ^ 32"
    by simp_all
  have a: "canvas_size (loadAndResizeImage_js files nearest [] ''wide.png'' 100 100) =
             Some (100, 50)"
    using loadAndResizeImage_js_size [where loadImage = files and path = "''wide.png''"
        and resample = nearest and s = "[]" and tw = 100 and th = 100,
        OF files_wide w refl v(1) t(1) t(1), THEN conjunct1]
    by (simp add: scenario_height)
  have b: "canvas_size (loadAndResizeImage_js files nearest [] ''square.png'' 400 300) =
             Some (300, 300)"
    using loadAndResizeImage_js_size [where loadImage = files and path = "''square.png''"
        and resample = nearest and s = "[]" and tw = 400 and th = 300,
        OF files_square q refl v(2) t(2) t(3), THEN conjunct2]
    by simp
  from a b show ?thesis by (intro conjI)
qed

text \<open>
  C4. The claim is that the canvas never exceeds the target in width or height. A source
  of 200 by 100 with the target 400 by 100 gives a canvas of 400 by 200, twice as high as
  the target.
\<close>

theorem loadAndResizeImage_js_box_counterexample:
  "canvas_size (loadAndResizeImage_js files nearest [] ''wide.png'' 400 100) = Some (400, 200) \<and>
   \<not> (200::nat) \<le> 100"
proof -
  have a: "canvas_size (loadAndResizeImage_js files nearest [] ''wide.png'' 400 100) =
             Some (400, 200)"
    by (simp only: canvas_size_wide newSize_wide)
  have b: "\<not> (200::nat) \<le> 100" by simp
  from a b show ?thesis by (intro conjI)
qed

text \<open>
  C4, amended. For sizes below \<open>2 ^ 32\<close> and a positive target, one side of the canvas is
  the same side of the target, and the other side of the canvas is at most that same
  number: for a source wider than high the width is the target width and the height is at
  most the target width; otherwise the height is the target height and the width is at
  most the target height. So the canvas fits a square target.
\<close>

theorem loadAndResizeImage_js_bounds:
  assumes "loadImage path = Inr img"
    and "0 < img_width img" "0 < img_height img" "img_height img < 2 ^ 32"
    and "0 < tw" "0 < th" "tw < 2 ^ 32" "th < 2 ^ 32" and "img_width img < 2 ^ 32"
  shows "\<exists>w h. canvas_size (loadAndResizeImage_js loadImage resample s path tw th) = Some (w, h) \<and>
           (w = tw \<or> h = th) \<and>
           (img_height img < img_width img \<longrightarrow> w = tw \<and> h \<le> tw) \<and>
           (img_width img \<le> img_height img \<longrightarrow> h = th \<and> w \<le> th) \<and>
           (tw = th \<longrightarrow> w \<le> tw \<and> h \<le> th)"
proof -
  have p: "(2::nat) ^ 32 \<le> 2 ^ 52" "(2::nat) ^ 32 \<le> 2 ^ 53" by simp_all
  have b: "img_height img < 2 ^ 52" using assms(4) p(1) by (rule less_le_trans)
  have t: "tw < 2 ^ 53" "th < 2 ^ 53"
    using assms(7,8) p(2) by (auto intro: less_le_trans)
  obtain w h where n: "newSize (img_width img) (img_height img) tw th = (w, h)"
    by (cases "newSize (img_width img) (img_height img) tw th")
  have l: "img_height img < img_width img \<longrightarrow> w = tw \<and> h \<le> tw"
    using newSize_landscape_bound [OF assms(2,3) b _ t(1), of th] n by simp
  have q: "img_width img \<le> img_height img \<longrightarrow> h = th \<and> w \<le> th"
    using newSize_portrait_bound [OF assms(2,3) b _ t(2), of tw] n by simp
  have "canvas_size (loadAndResizeImage_js loadImage resample s path tw th) = Some (w, h)"
    using canvas_size_js [where loadImage = loadImage and path = path, OF assms(1)]
    by (simp only: n)
  moreover have "w = tw \<or> h = th" using l q by linarith
  moreover have "tw = th \<longrightarrow> w \<le> tw \<and> h \<le> th" using l q by linarith
  ultimately show ?thesis using l q by blast
qed

theorem loadAndResizeImage_js_bounds_witness:
  "\<exists>w h. canvas_size (loadAndResizeImage_js files nearest [] ''wide.png'' 400 100) = Some (w, h) \<and>
     w = 400 \<and> h \<le> 400"
proof -
  have w: "0 < img_width (blank_image 200 100)" "0 < img_height (blank_image 200 100)"
    "img_height (blank_image 200 100) < 2 ^ 32"
    "(0::nat) < 400" "(0::nat) < 100" "(400::nat) < 2 ^ 32" "(100::nat) < 2 ^ 32"
    "img_width (blank_image 200 100) < 2 ^ 32"
    by simp_all
  show ?thesis
    using loadAndResizeImage_js_bounds [where loadImage = files and path = "''wide.png''"
        and resample = nearest and s = "[]", OF files_wide w]
    by simp
qed

end
